theory Spec2Isabelle
  imports Main "HOL-Library.Sublist"
begin

section \<open>Python strings\<close>

text \<open>
  A Python \<open>str\<close> is a sequence of code points. The model is \<open>string\<close>, one
  \<open>char\<close> per code point, which covers the code points 0 to 255 (ISO 8859-1);
  the character classes below are those of the Unicode database on that range,
  as \<open>str.isspace\<close>, \<open>str.isalpha\<close>, \<open>str.isupper\<close> and \<open>str.islower\<close> read them.
\<close>

datatype error = IndexError | ValueError

definition isspace_chr :: "char \<Rightarrow> bool" where
  "isspace_chr c =
     (let n = (of_char c :: nat)
      in (9 \<le> n \<and> n \<le> 13) \<or> (28 \<le> n \<and> n \<le> 32) \<or> n = 133 \<or> n = 160)"

definition isupper_chr :: "char \<Rightarrow> bool" where
  "isupper_chr c =
     (let n = (of_char c :: nat)
      in (65 \<le> n \<and> n \<le> 90) \<or> (192 \<le> n \<and> n \<le> 214) \<or> (216 \<le> n \<and> n \<le> 222))"

definition islower_chr :: "char \<Rightarrow> bool" where
  "islower_chr c =
     (let n = (of_char c :: nat)
      in (97 \<le> n \<and> n \<le> 122) \<or> n = 170 \<or> n = 181 \<or> n = 186
         \<or> (223 \<le> n \<and> n \<le> 246) \<or> (248 \<le> n \<and> n \<le> 255))"

definition isalpha_chr :: "char \<Rightarrow> bool" where
  "isalpha_chr c = (isupper_chr c \<or> islower_chr c)"

text \<open>
  \<open>s.isupper()\<close>: no cased character of \<open>s\<close> is lower-case and \<open>s\<close> has at
  least one upper-case character. \<open>s.isalpha()\<close>: \<open>s\<close> is not empty and all its
  characters are letters.
\<close>

definition str_isupper :: "string \<Rightarrow> bool" where
  "str_isupper s = (list_all (\<lambda>c. \<not> islower_chr c) s \<and> list_ex isupper_chr s)"

definition str_isalpha :: "string \<Rightarrow> bool" where
  "str_isalpha s = (s \<noteq> [] \<and> list_all isalpha_chr s)"

text \<open>\<open>s.strip()\<close>: white space removed at both ends.\<close>

definition str_strip :: "string \<Rightarrow> string" where
  "str_strip s = rev (dropWhile isspace_chr (rev (dropWhile isspace_chr s)))"

text \<open>
  \<open>s.find(sub)\<close>: the index of the first occurrence of \<open>sub\<close> in \<open>s\<close>, with
  \<open>None\<close> for Python's \<open>-1\<close>. \<open>sub in s\<close> and \<open>s.index(sub)\<close> are read off
  it; \<open>index\<close> raises \<open>ValueError\<close> where \<open>find\<close> finds nothing.
\<close>

primrec str_find :: "string \<Rightarrow> string \<Rightarrow> nat option" where
  "str_find sub [] = (if sub = [] then Some 0 else None)"
| "str_find sub (c # cs) =
     (if prefix sub (c # cs) then Some 0 else map_option Suc (str_find sub cs))"

definition str_contains :: "string \<Rightarrow> string \<Rightarrow> bool" where
  "str_contains sub s = (str_find sub s \<noteq> None)"

definition str_index :: "string \<Rightarrow> string \<Rightarrow> error + nat" where
  "str_index sub s = (case str_find sub s of None \<Rightarrow> Inl ValueError | Some i \<Rightarrow> Inr i)"

text \<open>\<open>s.rindex(c)\<close> for a one-character \<open>c\<close>: the index of its last occurrence.\<close>

definition str_rindex :: "char \<Rightarrow> string \<Rightarrow> error + nat" where
  "str_rindex c s =
     (if c \<in> set s then Inr (length s - Suc (length (takeWhile (\<lambda>x. x \<noteq> c) (rev s))))
      else Inl ValueError)"

text \<open>
  \<open>s[i]\<close> for \<open>i \<ge> 0\<close> and \<open>s[-1]\<close>: both raise \<open>IndexError\<close> out of range.
\<close>

definition str_get :: "string \<Rightarrow> nat \<Rightarrow> error + char" where
  "str_get s i = (if i < length s then Inr (s ! i) else Inl IndexError)"

definition str_last :: "string \<Rightarrow> error + char" where
  "str_last s = (if s = [] then Inl IndexError else Inr (last s))"

text \<open>\<open>s.count(c)\<close> and \<open>s.replace(c, '')\<close> for a one-character \<open>c\<close>.\<close>

definition str_count :: "char \<Rightarrow> string \<Rightarrow> nat" where
  "str_count c s = count_list s c"

definition str_remove :: "char \<Rightarrow> string \<Rightarrow> string" where
  "str_remove c s = filter (\<lambda>x. x \<noteq> c) s"

abbreviation apostrophe :: char where
  "apostrophe \<equiv> CHR 0x27"

section \<open>The line classifier\<close>

text \<open>\<open>is_speaker_name\<close>, lines 27 to 35.\<close>

definition is_speaker_name :: "string \<Rightarrow> bool" where
  "is_speaker_name text =
     (if str_isupper text then
        (if str_isalpha text then True
         else if str_contains [apostrophe] text \<and> str_count apostrophe text = 1
           then str_isalpha (str_remove apostrophe text)
         else False)
      else False)"

text \<open>
  \<open>is_speaker_annotated\<close>, lines 42 to 49. Without a space in \<open>speaker\<close> the
  function falls off its end and returns Python's \<open>None\<close>; \<open>speaker[space_index + 1]\<close>
  raises \<open>IndexError\<close> when the first space is the last character.
\<close>

definition is_speaker_annotated :: "string \<Rightarrow> error + bool option" where
  "is_speaker_annotated speaker =
     (if str_contains '' '' speaker then
        (case str_index '' '' speaker of
           Inl e \<Rightarrow> Inl e
         | Inr space_index \<Rightarrow>
             (case str_get speaker (space_index + 1) of
                Inl e \<Rightarrow> Inl e
              | Inr opening_punc \<Rightarrow>
                  (case str_last speaker of
                     Inl e \<Rightarrow> Inl e
                   | Inr closing_punc \<Rightarrow>
                       if (opening_punc = CHR ''('' \<or> opening_punc = CHR ''['')
                          \<and> (closing_punc = CHR '')'' \<or> closing_punc = CHR '']'')
                       then Inr (Some True)
                       else Inr (Some False))))
      else Inr None)"

text \<open>
  \<open>parse_transcription_line\<close>, lines 57 to 78. The result is the pair
  \<open>(speaker, words)\<close> of the source, each component possibly \<open>None\<close>:
  \<open>(None, None)\<close> discards the line, \<open>(None, Some t)\<close> continues the previous
  speaker and \<open>(Some n, Some t)\<close> starts the speaker \<open>n\<close>.
\<close>

definition is_action :: "string \<Rightarrow> bool" where
  "is_action line =
     ((hd line = CHR ''['' \<and> last line = CHR '']'') \<or> (hd line = CHR ''('' \<and> last line = CHR '')''))"

definition parse_transcription_line :: "string \<Rightarrow> error + (string option \<times> string option)" where
  "parse_transcription_line raw =
     (let line = str_strip raw in
      if line = [] then Inr (None, None)
      else if is_action line then Inr (None, None)
      else if str_contains '': '' line then
        (case str_index '' '' line of
           Inl e \<Rightarrow> Inl e
         | Inr space_index \<Rightarrow>
             (case str_index '': '' line of
                Inl e \<Rightarrow> Inl e
              | Inr col_index \<Rightarrow>
                  if col_index \<noteq> 0 then
                    (let speaker_part = take col_index line;
                         spoken_part = drop (col_index + 2) line
                     in if is_speaker_name speaker_part
                        then Inr (Some speaker_part, Some spoken_part)
                        else if space_index < col_index then
                          (case is_speaker_annotated speaker_part of
                             Inl e \<Rightarrow> Inl e
                           | Inr annotated \<Rightarrow>
                               if annotated = Some True then
                                 (let speaker_part = take space_index line
                                  in if is_speaker_name speaker_part
                                     then Inr (Some speaker_part, Some spoken_part)
                                     else Inr (None, Some line))
                               else Inr (None, Some line))
                        else Inr (None, Some line))
                  else Inr (None, Some line)))
      else Inr (None, Some line))"

section \<open>The bucket writer\<close>

text \<open>
  The state that \<open>process_transcription\<close> reads and changes: the fields of the
  \<open>TranscriptionParser\<close> object, the local variables of the method, and the
  part of the environment it acts on. A file handle is identified with the path
  it was opened on (within one transcript every path is opened at most once);
  \<open>files\<close> holds the text written to each path and \<open>open_files\<close> the handles
  that are open.
\<close>

record state =
  output_dir :: string
  output_prefix :: string
  files_processed :: nat
  files_created :: nat
  file_handles :: "(string \<times> string) list"
  output_file :: "string option"
  line_number :: nat
  files :: "string \<rightharpoonup> string"
  open_files :: "string set"
  stdout :: "string list"

text \<open>Decimal digits of a number, as \<open>%d\<close> prints it.\<close>

fun str_of_nat :: "nat \<Rightarrow> string" where
  "str_of_nat n =
     (if n < 10 then [''0123456789'' ! n]
      else str_of_nat (n div 10) @ [''0123456789'' ! (n mod 10)])"

definition print_line :: "string \<Rightarrow> state \<Rightarrow> state" where
  "print_line msg s = s\<lparr>stdout := stdout s @ [msg]\<rparr>"

definition missed_speaker :: "nat \<Rightarrow> string \<Rightarrow> string" where
  "missed_speaker n words = ''Missed speaker for line '' @ str_of_nat n @ '': '' @ words"

definition bucket_file :: "string \<Rightarrow> string \<Rightarrow> string" where
  "bucket_file bucket_path speaker = bucket_path @ ''_'' @ speaker @ ''.txt''"

text \<open>\<open>open(path, 'w')\<close> creates or truncates the file and yields an open handle.\<close>

definition open_w :: "string \<Rightarrow> state \<Rightarrow> state" where
  "open_w path s = s\<lparr>files := (files s)(path \<mapsto> []), open_files := insert path (open_files s)\<rparr>"

definition contents :: "state \<Rightarrow> string \<Rightarrow> string" where
  "contents s path = (case files s path of None \<Rightarrow> [] | Some text \<Rightarrow> text)"

definition write_file :: "string \<Rightarrow> string \<Rightarrow> state \<Rightarrow> state" where
  "write_file handle text s = s\<lparr>files := (files s)(handle \<mapsto> contents s handle @ text)\<rparr>"

definition close_file :: "string \<Rightarrow> state \<Rightarrow> state" where
  "close_file handle s = s\<lparr>open_files := open_files s - {handle}\<rparr>"

definition crlf :: string where
  "crlf = [CHR 0x0D, CHR 0x0A]"

text \<open>
  The body of the loop over the lines, lines 142 to 158. An exception leaves
  the method at once: the result carries it together with the state reached.
\<close>

definition select_speaker :: "string \<Rightarrow> string \<Rightarrow> state \<Rightarrow> state" where
  "select_speaker bucket_path speaker s =
     (case map_of (file_handles s) speaker of
        None \<Rightarrow>
          (let handle = bucket_file bucket_path speaker;
               s1 = open_w handle s;
               s2 = s1\<lparr>file_handles := file_handles s1 @ [(speaker, handle)]\<rparr>;
               s3 = s2\<lparr>files_created := files_created s2 + 1\<rparr>
           in s3\<lparr>output_file := Some handle\<rparr>)
      | Some handle \<Rightarrow> s\<lparr>output_file := Some handle\<rparr>)"

definition write_words :: "string \<Rightarrow> state \<Rightarrow> state" where
  "write_words words s =
     (case output_file s of
        Some handle \<Rightarrow> write_file handle (words @ crlf) s
      | None \<Rightarrow> print_line (missed_speaker (line_number s) words) s)"

definition process_line :: "string \<Rightarrow> string \<Rightarrow> state \<Rightarrow> error option \<times> state" where
  "process_line bucket_path line s0 =
     (let s = s0\<lparr>line_number := line_number s0 + 1\<rparr> in
      case parse_transcription_line line of
        Inl e \<Rightarrow> (Some e, s)
      | Inr (speaker, words) \<Rightarrow>
          (case words of
             None \<Rightarrow> (None, s)
           | Some ws \<Rightarrow>
               if ws = [] then (None, s)
               else
                 (let s1 = (case speaker of
                              None \<Rightarrow> s
                            | Some sp \<Rightarrow>
                                if sp = [] then s else select_speaker bucket_path sp s)
                  in (None, write_words ws s1))))"

fun process_lines :: "string \<Rightarrow> string list \<Rightarrow> state \<Rightarrow> error option \<times> state" where
  "process_lines bucket_path [] s = (None, s)"
| "process_lines bucket_path (line # rest) s =
     (case process_line bucket_path line s of
        (Some e, s') \<Rightarrow> (Some e, s')
      | (None, s') \<Rightarrow> process_lines bucket_path rest s')"

text \<open>
  \<open>os.path.split(p)[1]\<close> and \<open>os.path.join(a, b)\<close> as \<open>posixpath\<close> defines them.
\<close>

definition path_tail :: "string \<Rightarrow> string" where
  "path_tail p = rev (takeWhile (\<lambda>c. c \<noteq> CHR ''/'') (rev p))"

definition path_join :: "string \<Rightarrow> string \<Rightarrow> string" where
  "path_join a b =
     (if prefix ''/'' b then b
      else if a = [] \<or> suffix ''/'' a then a @ b
      else a @ ''/'' @ b)"

definition start_loop :: "state \<Rightarrow> state" where
  "start_loop s = s\<lparr>file_handles := [], output_file := None, line_number := 0\<rparr>"

definition close_all :: "state \<Rightarrow> state" where
  "close_all s = fold (\<lambda>(key, handle). close_file handle) (file_handles s) s"

text \<open>
  \<open>process_transcription\<close>, lines 128 to 164, on a transcript whose lines have
  been read into a list. The handles are closed by the loop after the
  \<open>with\<close> block, which an exception skips.
\<close>

definition process_transcription :: "string \<Rightarrow> string list \<Rightarrow> state \<Rightarrow> error option \<times> state" where
  "process_transcription filepath speech_file s0 =
     (let filename = path_tail filepath;
          s1 = print_line (''Processing file '' @ filename) s0
      in case str_rindex CHR ''.'' filename of
           Inl e \<Rightarrow> (Some e, s1)
         | Inr dot \<Rightarrow>
             (let bucket_path = path_join (output_dir s1) (output_prefix s1 @ take dot filename);
                  s2 = start_loop s1
              in case process_lines bucket_path speech_file s2 of
                   (Some e, s3) \<Rightarrow> (Some e, s3)
                 | (None, s3) \<Rightarrow>
                     (let s4 = close_all s3
                      in (None, s4\<lparr>files_processed := files_processed s4 + 1\<rparr>))))"

text \<open>
  A parser as \<open>__init__\<close> leaves it, with nothing written and nothing open.
\<close>

definition new_parser :: "string \<Rightarrow> string \<Rightarrow> state" where
  "new_parser dir pre =
     \<lparr>output_dir = dir, output_prefix = pre, files_processed = 0, files_created = 0,
      file_handles = [], output_file = None, line_number = 0,
      files = Map.empty, open_files = {}, stdout = []\<rparr>"

section \<open>Notions used to state the properties\<close>

text \<open>The part of a candidate speaker token that follows its first space.\<close>

definition after_first_space :: "string \<Rightarrow> string" where
  "after_first_space speaker = tl (dropWhile (\<lambda>c. c \<noteq> CHR '' '') speaker)"

text \<open>
  Speaker-name validity in the words of the specification: all upper-case, and
  either purely alphabetic or exactly one apostrophe whose removal leaves a
  purely alphabetic string.
\<close>

definition speaker_name_spec :: "string \<Rightarrow> bool" where
  "speaker_name_spec s =
     (str_isupper s \<and>
      (str_isalpha s \<or> (str_count apostrophe s = 1 \<and> str_isalpha (str_remove apostrophe s))))"

text \<open>
  The handle that a line of \<open>speaker\<close> is written to from state \<open>s\<close>, and the
  text that handle already holds: nothing for a speaker met for the first time,
  whose file is created empty.
\<close>

definition sink :: "string \<Rightarrow> state \<Rightarrow> string \<Rightarrow> string" where
  "sink bucket_path s speaker =
     (case map_of (file_handles s) speaker of
        None \<Rightarrow> bucket_file bucket_path speaker
      | Some handle \<Rightarrow> handle)"

definition carried_over :: "state \<Rightarrow> string \<Rightarrow> string" where
  "carried_over s speaker =
     (case map_of (file_handles s) speaker of
        None \<Rightarrow> []
      | Some handle \<Rightarrow> contents s handle)"

text \<open>A line that the classifier discards or reads as a continuation.\<close>

definition no_new_speaker :: "string \<Rightarrow> bool" where
  "no_new_speaker line =
     (case parse_transcription_line line of
        Inl e \<Rightarrow> False
      | Inr (speaker, words) \<Rightarrow> speaker = None)"

text \<open>The text of a speaker's bucket, if the speaker has one.\<close>

definition bucket :: "state \<Rightarrow> string \<Rightarrow> string option" where
  "bucket s speaker =
     (case map_of (file_handles s) speaker of
        None \<Rightarrow> None
      | Some handle \<Rightarrow> files s handle)"

text \<open>
  Reading a decimal numeral back: the value of a digit character and of a
  string of digits.
\<close>

definition digit_value :: "char \<Rightarrow> nat" where
  "digit_value c = of_char c - 48"

definition is_digit :: "char \<Rightarrow> bool" where
  "is_digit c = (48 \<le> (of_char c :: nat) \<and> (of_char c :: nat) \<le> 57)"

definition nat_of_str :: "string \<Rightarrow> nat" where
  "nat_of_str s = foldl (\<lambda>a c. 10 * a + digit_value c) 0 s"

definition handles :: "state \<Rightarrow> string set" where
  "handles s = set (map snd (file_handles s))"


section \<open>Properties of the string operations\<close>

lemma str_find_Some:
  "str_find sub s = Some i \<Longrightarrow> i \<le> length s \<and> prefix sub (drop i s)"
proof (induction s arbitrary: i)
  case Nil
  then show ?case by (simp split: if_splits)
next
  case (Cons c cs)
  show ?case
  proof (cases "prefix sub (c # cs)")
    case True
    with Cons.prems show ?thesis by simp
  next
    case False
    with Cons.prems obtain j where j: "str_find sub cs = Some j" "i = Suc j"
      by auto
    from Cons.IH [OF j(1)] j(2) show ?thesis by simp
  qed
qed

lemma str_find_None:
  "str_find sub s = None \<Longrightarrow> \<not> sublist sub s"
proof (induction s)
  case Nil
  then show ?case by (simp split: if_splits)
next
  case (Cons c cs)
  then show ?case by (auto simp: sublist_Cons_right split: if_splits)
qed

lemma str_contains_sublist: "str_contains sub s = sublist sub s"
proof
  assume "str_contains sub s"
  then obtain i where "str_find sub s = Some i"
    by (auto simp: str_contains_def)
  then have "prefix sub (drop i s)" by (simp add: str_find_Some)
  then obtain zs where "drop i s = sub @ zs" by (auto simp: prefix_def)
  then have "s = take i s @ sub @ zs" by (metis append_take_drop_id)
  then show "sublist sub s" unfolding sublist_def by blast
next
  assume "sublist sub s"
  then show "str_contains sub s"
    using str_find_None [of sub s] by (auto simp: str_contains_def)
qed

lemma str_strip_sublist: "sublist (str_strip s) s"
proof -
  have "suffix (dropWhile isspace_chr s) s"
    by (rule suffix_dropWhile)
  moreover have "prefix (str_strip s) (dropWhile isspace_chr s)"
    unfolding str_strip_def
    by (metis suffix_dropWhile suffix_to_prefix rev_rev_ident)
  ultimately show ?thesis
    by (meson prefix_imp_sublist suffix_imp_sublist sublist_order.order_trans)
qed

lemma str_contains_strip:
  "str_contains sub (str_strip s) \<Longrightarrow> str_contains sub s"
  unfolding str_contains_sublist
  using str_strip_sublist sublist_order.order_trans by blast

lemma str_strip_last: "str_strip s \<noteq> [] \<Longrightarrow> \<not> isspace_chr (last (str_strip s))"
  unfolding str_strip_def
  by (simp add: last_rev hd_dropWhile)

lemma str_find_chr:
  "str_find [c] s = (if c \<in> set s then Some (length (takeWhile (\<lambda>x. x \<noteq> c) s)) else None)"
  by (induction s) auto

lemma str_contains_chr: "str_contains [c] s = (c \<in> set s)"
  by (simp add: str_contains_def str_find_chr)

lemma str_index_chr:
  "c \<in> set s \<Longrightarrow> str_index [c] s = Inr (length (takeWhile (\<lambda>x. x \<noteq> c) s))"
  by (simp add: str_index_def str_find_chr)

lemma str_get_after:
  "c \<in> set s \<Longrightarrow>
   str_get s (Suc (length (takeWhile (\<lambda>x. x \<noteq> c) s))) =
     (if tl (dropWhile (\<lambda>x. x \<noteq> c) s) = [] then Inl IndexError
      else Inr (hd (tl (dropWhile (\<lambda>x. x \<noteq> c) s))))"
proof -
  assume c: "c \<in> set s"
  let ?n = "length (takeWhile (\<lambda>x. x \<noteq> c) s)"
  have d: "dropWhile (\<lambda>x. x \<noteq> c) s = drop ?n s"
    by (simp add: dropWhile_eq_drop)
  have n: "?n < length s"
    using c by (induction s) auto
  have t: "tl (drop ?n s) = drop (Suc ?n) s"
    by (simp add: drop_Suc tl_drop)
  show ?thesis
  proof (cases "Suc ?n < length s")
    case True
    then show ?thesis
      by (simp add: str_get_def d t hd_drop_conv_nth)
  next
    case False
    then show ?thesis
      by (simp add: str_get_def d t)
  qed
qed

lemma apostrophe_not_alpha: "\<not> isalpha_chr apostrophe"
  by (simp add: isalpha_chr_def isupper_chr_def islower_chr_def)

lemma str_isalpha_no_apostrophe: "str_isalpha s \<Longrightarrow> apostrophe \<notin> set s"
  using apostrophe_not_alpha by (auto simp: str_isalpha_def list_all_iff)

lemma space_isspace: "isspace_chr CHR '' ''"
  by (simp add: isspace_chr_def)

lemma spoken_part_nonempty:
  assumes ne: "line \<noteq> []" and l: "\<not> isspace_chr (last line)"
    and f: "str_find '': '' line = Some i"
  shows "drop (i + 2) line \<noteq> []"
proof -
  from str_find_Some [OF f] obtain zs where zs: "drop i line = '': '' @ zs"
    by (auto simp: prefix_def)
  have "zs \<noteq> []"
  proof
    assume "zs = []"
    with zs have "drop i line = '': ''" by simp
    then have "last (drop i line) = CHR '' ''" by simp
    moreover have "i < length line" using zs by (cases "i < length line") auto
    ultimately have "last line = CHR '' ''" by (simp add: last_drop)
    with l space_isspace show False by simp
  qed
  moreover have "drop (i + 2) line = drop 2 (drop i line)"
    by (simp add: add.commute)
  ultimately show ?thesis using zs by simp
qed

section \<open>The line classifier\<close>

subsection \<open>Classification of an arbitrary line\<close>

text \<open>
  C1. The claim is that \<open>parse_transcription_line\<close> returns one of its three
  result shapes on every line and never raises. On the line \<open>SMITH : Hello.\<close>
  the candidate speaker token is \<open>SMITH\<close> followed by a space, the first space is
  its last character, and \<open>speaker[space_index + 1]\<close> in \<open>is_speaker_annotated\<close>
  reads past the end: the function raises \<open>IndexError\<close>.
\<close>

theorem parse_transcription_line_index_error:
  "parse_transcription_line ''SMITH : Hello.'' = Inl IndexError"
  by code_simp

subsection \<open>Annotated speakers\<close>

text \<open>
  C2. The claim is that a token containing a space is accepted as annotated only
  if the text after its first space starts with an opening symbol and the token
  ends with the matching closing symbol. The source tests the two symbols
  independently, so a mismatched pair is accepted.
\<close>

theorem is_speaker_annotated_mismatched:
  "is_speaker_annotated ''SMITH [shouting)'' = Inr (Some True) \<and>
   hd (after_first_space ''SMITH [shouting)'') = CHR ''['' \<and>
   last ''SMITH [shouting)'' = CHR '')''"
  by code_simp

text \<open>
  C2, as the source has it: a token containing a space is accepted exactly when
  the text after its first space starts with \<open>(\<close> or \<open>[\<close> and the token ends
  with \<open>)\<close> or \<open>]\<close>, whichever of the two.
\<close>

theorem is_speaker_annotated_accepts:
  assumes "CHR '' '' \<in> set speaker"
  shows "is_speaker_annotated speaker = Inr (Some True) \<longleftrightarrow>
         after_first_space speaker \<noteq> [] \<and>
         (hd (after_first_space speaker) = CHR ''('' \<or> hd (after_first_space speaker) = CHR ''['') \<and>
         (last speaker = CHR '')'' \<or> last speaker = CHR '']'')"
proof -
  from assms have ne: "speaker \<noteq> []" by auto
  show ?thesis
    using assms ne
    by (simp add: is_speaker_annotated_def str_contains_chr str_index_chr str_get_after
        str_last_def after_first_space_def)
qed

theorem is_speaker_annotated_accepts_witness:
  "CHR '' '' \<in> set ''SMITH [shouting]'' \<and>
   is_speaker_annotated ''SMITH [shouting]'' = Inr (Some True)"
proof -
  have h: "CHR '' '' \<in> set ''SMITH [shouting]''" by simp
  have "after_first_space ''SMITH [shouting]'' \<noteq> [] \<and>
        (hd (after_first_space ''SMITH [shouting]'') = CHR ''('' \<or>
         hd (after_first_space ''SMITH [shouting]'') = CHR ''['') \<and>
        (last ''SMITH [shouting]'' = CHR '')'' \<or> last ''SMITH [shouting]'' = CHR '']'')"
    by (simp add: after_first_space_def)
  with is_speaker_annotated_accepts [OF h] h show ?thesis by blast
qed

subsection \<open>Speaker names\<close>

text \<open>
  C3. The claim is that no accepted speaker name has an apostrophe at position 0.
  The source counts the apostrophes and removes them without looking at their
  position, so a name with a single leading apostrophe is accepted.
\<close>

theorem is_speaker_name_leading_apostrophe:
  "is_speaker_name (apostrophe # ''BRIEN'') \<and> hd (apostrophe # ''BRIEN'') = apostrophe"
  by code_simp

text \<open>
  C3, as the source has it: an accepted speaker name contains at most one
  apostrophe, at any position, and is purely alphabetic once it is removed.
\<close>

theorem is_speaker_name_apostrophes:
  assumes "is_speaker_name s"
  shows "str_count apostrophe s \<le> 1 \<and> str_isalpha (str_remove apostrophe s)"
proof (cases "str_isalpha s")
  case True
  then have "apostrophe \<notin> set s" by (rule str_isalpha_no_apostrophe)
  then have "str_count apostrophe s = 0" "str_remove apostrophe s = s"
    by (auto simp: str_count_def str_remove_def count_list_0_iff filter_id_conv)
  with True show ?thesis by simp
next
  case False
  with assms show ?thesis
    by (auto simp: is_speaker_name_def split: if_splits)
qed

theorem is_speaker_name_apostrophes_witness:
  "is_speaker_name ''O'BRIEN'' \<and> str_count apostrophe ''O'BRIEN'' \<le> 1 \<and>
   str_isalpha (str_remove apostrophe ''O'BRIEN'')"
proof -
  have h: "is_speaker_name ''O'BRIEN''" by code_simp
  from is_speaker_name_apostrophes [OF h] h show ?thesis by simp
qed

lemma is_speaker_name_examples:
  "is_speaker_name ''SMITH'' \<and> is_speaker_name ''O'BRIEN'' \<and>
   \<not> is_speaker_name (''O'' @ [apostrophe, apostrophe] @ ''BRIEN'') \<and>
   \<not> is_speaker_name ''Smith'' \<and> \<not> is_speaker_name ''SMITH2''"
  by code_simp

lemma str_count_one_contains: "str_count c s = 1 \<Longrightarrow> str_contains [c] s"
  by (metis count_list_0_iff str_contains_chr str_count_def zero_neq_one)

text \<open>
  C4. \<open>is_speaker_name\<close> holds exactly of the strings that are all upper-case and
  either purely alphabetic or have exactly one apostrophe whose removal leaves a
  purely alphabetic string; \<open>SMITH\<close> and \<open>O'BRIEN\<close> are speaker names, and
  \<open>O''BRIEN\<close>, \<open>Smith\<close> and \<open>SMITH2\<close> are not.
\<close>

theorem is_speaker_name_exact:
  "(is_speaker_name s \<longleftrightarrow> speaker_name_spec s) \<and>
   is_speaker_name ''SMITH'' \<and> is_speaker_name ''O'BRIEN'' \<and>
   \<not> is_speaker_name (''O'' @ [apostrophe, apostrophe] @ ''BRIEN'') \<and>
   \<not> is_speaker_name ''Smith'' \<and> \<not> is_speaker_name ''SMITH2''"
proof -
  have "is_speaker_name s \<longleftrightarrow> speaker_name_spec s"
    using str_count_one_contains [of apostrophe s]
    by (auto simp: is_speaker_name_def speaker_name_spec_def)
  with is_speaker_name_examples show ?thesis by blast
qed

subsection \<open>Lines without the delimiter\<close>

text \<open>
  C5. The claim is that every non-empty line without a colon followed by a space
  is classified as a continuation carrying the trimmed line. The source
  discards blank lines and action lines first: \<open>[laughs]\<close> is non-empty, has no
  delimiter, and is discarded.
\<close>

theorem action_line_discarded:
  "''[laughs]'' \<noteq> [] \<and> \<not> str_contains '': '' ''[laughs]'' \<and>
   parse_transcription_line ''[laughs]'' = Inr (None, None)"
  by code_simp

text \<open>
  C5, as the source has it: a line without the delimiter whose trimmed form is
  non-empty and is not wrapped in brackets or parentheses is classified as a
  continuation carrying the trimmed line.
\<close>

theorem continuation_without_delimiter:
  assumes "str_strip line \<noteq> []" and "\<not> is_action (str_strip line)"
    and "\<not> str_contains '': '' line"
  shows "parse_transcription_line line = Inr (None, Some (str_strip line))"
proof -
  from assms(3) have "\<not> str_contains '': '' (str_strip line)"
    using str_contains_strip by blast
  with assms(1,2) show ?thesis
    by (simp add: parse_transcription_line_def)
qed

theorem continuation_without_delimiter_witness:
  "str_strip (''Nice to see you.'' @ [CHR 0x0A]) \<noteq> [] \<and>
   \<not> is_action (str_strip (''Nice to see you.'' @ [CHR 0x0A])) \<and>
   \<not> str_contains '': '' (''Nice to see you.'' @ [CHR 0x0A]) \<and>
   parse_transcription_line (''Nice to see you.'' @ [CHR 0x0A]) =
     Inr (None, Some ''Nice to see you.'')"
proof -
  have h1: "str_strip (''Nice to see you.'' @ [CHR 0x0A]) \<noteq> []" by code_simp
  have h2: "\<not> is_action (str_strip (''Nice to see you.'' @ [CHR 0x0A]))" by code_simp
  have h3: "\<not> str_contains '': '' (''Nice to see you.'' @ [CHR 0x0A])" by code_simp
  have e: "str_strip (''Nice to see you.'' @ [CHR 0x0A]) = ''Nice to see you.''" by code_simp
  from continuation_without_delimiter [OF h1 h2 h3] h1 h2 h3 e show ?thesis by simp
qed

subsection \<open>Lines that start a speaker\<close>

lemma parse_new_speaker_text:
  assumes "parse_transcription_line line = Inr (Some speaker, Some text)"
  shows "text \<noteq> [] \<and> is_speaker_name speaker"
proof -
  let ?l = "str_strip line"
  from assms have ne: "?l \<noteq> []"
    by (auto simp: parse_transcription_line_def Let_def split: if_splits)
  have l: "\<not> isspace_chr (last ?l)" using ne by (rule str_strip_last)
  from assms obtain i where i: "str_find '': '' ?l = Some i" and t: "text = drop (i + 2) ?l"
    and sp: "is_speaker_name speaker"
    by (auto simp: parse_transcription_line_def Let_def str_index_def str_contains_def
        split: if_splits sum.splits option.splits)
  from spoken_part_nonempty [OF ne l i] t sp show ?thesis by simp
qed

lemma is_speaker_name_nonempty: "is_speaker_name s \<Longrightarrow> s \<noteq> []"
  by (auto simp: is_speaker_name_def str_isupper_def split: if_splits)

lemma parse_continuation_text:
  assumes "parse_transcription_line line = Inr (None, Some text)"
  shows "text = str_strip line \<and> text \<noteq> []"
  using assms
  by (auto simp: parse_transcription_line_def Let_def split: if_splits sum.splits)

section \<open>The bucket writer\<close>

subsection \<open>The steps of the loop\<close>

lemma select_speaker_output:
  "output_file (select_speaker bp sp s) = Some (sink bp s sp)"
  by (simp add: select_speaker_def sink_def Let_def open_w_def split: option.splits)

lemma select_speaker_contents:
  "contents (select_speaker bp sp s) (sink bp s sp) = carried_over s sp"
  by (simp add: select_speaker_def sink_def carried_over_def contents_def Let_def open_w_def
      split: option.splits)

lemma write_file_files:
  "files (write_file h t s) h = Some (contents s h @ t)"
  by (simp add: write_file_def)

lemma write_file_output: "output_file (write_file h t s) = output_file s"
  by (simp add: write_file_def)


lemma process_line_no_speaker:
  assumes "no_new_speaker line" and "output_file s = None"
  shows "fst (process_line bp line s) = None \<and>
         output_file (snd (process_line bp line s)) = None \<and>
         files (snd (process_line bp line s)) = files s \<and>
         file_handles (snd (process_line bp line s)) = file_handles s \<and>
         open_files (snd (process_line bp line s)) = open_files s \<and>
         files_created (snd (process_line bp line s)) = files_created s \<and>
         line_number (snd (process_line bp line s)) = line_number s + 1"
  using assms
  by (auto simp: no_new_speaker_def process_line_def write_words_def Let_def print_line_def
      split: sum.splits option.splits prod.splits)

lemma process_line_missed:
  assumes "parse_transcription_line line = Inr (None, Some text)" and "output_file s = None"
  shows "stdout (snd (process_line bp line s)) =
           stdout s @ [missed_speaker (line_number s + 1) text]"
proof -
  from parse_continuation_text [OF assms(1)] have "text \<noteq> []" by blast
  with assms show ?thesis
    by (simp add: process_line_def write_words_def Let_def print_line_def)
qed

lemma process_lines_append:
  "process_lines bp (xs @ ys) s =
     (case process_lines bp xs s of
        (Some e, s') \<Rightarrow> (Some e, s')
      | (None, s') \<Rightarrow> process_lines bp ys s')"
  by (induction xs arbitrary: s) (auto split: prod.splits option.splits)

lemma process_lines_no_speaker:
  assumes "list_all no_new_speaker pre" and "output_file s = None"
  shows "fst (process_lines bp pre s) = None \<and>
         output_file (snd (process_lines bp pre s)) = None \<and>
         files (snd (process_lines bp pre s)) = files s \<and>
         file_handles (snd (process_lines bp pre s)) = file_handles s \<and>
         open_files (snd (process_lines bp pre s)) = open_files s \<and>
         files_created (snd (process_lines bp pre s)) = files_created s \<and>
         line_number (snd (process_lines bp pre s)) = line_number s + length pre"
  using assms
proof (induction pre arbitrary: s)
  case Nil
  then show ?case by simp
next
  case (Cons l pre)
  from Cons.prems have l: "no_new_speaker l" and pre: "list_all no_new_speaker pre"
    by simp_all
  note st = process_line_no_speaker [OF l Cons.prems(2), of bp]
  obtain e s' where r: "process_line bp l s = (e, s')" by (cases "process_line bp l s")
  with st have e: "e = None" and o: "output_file s' = None" by simp_all
  have "process_lines bp (l # pre) s = process_lines bp pre s'"
    using r e by simp
  with Cons.IH [OF pre o] st r show ?case by simp
qed

subsection \<open>A worked transcript\<close>

text \<open>
  C6. Processing the three lines \<open>SMITH: Hello.\<close>, \<open>Nice to see you.\<close> and
  \<open>JONES: Hi Smith.\<close> with a new parser creates exactly the buckets of SMITH and
  JONES, in this order, writes the first two lines to the former and the third
  to the latter, each ended by a carriage return and a line feed, and counts two
  buckets created.
\<close>

theorem three_lines_two_buckets:
  "fst (process_transcription ''speech.txt''
          [''SMITH: Hello.'', ''Nice to see you.'', ''JONES: Hi Smith.'']
          (new_parser ''buckets'' '''')) = None \<and>
   file_handles (snd (process_transcription ''speech.txt''
          [''SMITH: Hello.'', ''Nice to see you.'', ''JONES: Hi Smith.'']
          (new_parser ''buckets'' ''''))) =
     [(''SMITH'', ''buckets/speech_SMITH.txt''), (''JONES'', ''buckets/speech_JONES.txt'')] \<and>
   bucket (snd (process_transcription ''speech.txt''
          [''SMITH: Hello.'', ''Nice to see you.'', ''JONES: Hi Smith.'']
          (new_parser ''buckets'' ''''))) ''SMITH'' =
     Some (''Hello.'' @ crlf @ ''Nice to see you.'' @ crlf) \<and>
   bucket (snd (process_transcription ''speech.txt''
          [''SMITH: Hello.'', ''Nice to see you.'', ''JONES: Hi Smith.'']
          (new_parser ''buckets'' ''''))) ''JONES'' =
     Some (''Hi Smith.'' @ crlf) \<and>
   files_created (snd (process_transcription ''speech.txt''
          [''SMITH: Hello.'', ''Nice to see you.'', ''JONES: Hi Smith.'']
          (new_parser ''buckets'' ''''))) = 2"
  by code_simp

subsection \<open>Continuation before any speaker\<close>

lemma hello_there_alone:
  "fst (process_transcription ''speech.txt'' [''Hello there.''] (new_parser ''buckets'' '''')) = None \<and>
   stdout (snd (process_transcription ''speech.txt'' [''Hello there.'']
      (new_parser ''buckets'' ''''))) =
     [''Processing file speech.txt'', ''Missed speaker for line 1: Hello there.''] \<and>
   file_handles (snd (process_transcription ''speech.txt'' [''Hello there.'']
      (new_parser ''buckets'' ''''))) = [] \<and>
   files_created (snd (process_transcription ''speech.txt'' [''Hello there.'']
      (new_parser ''buckets'' ''''))) = 0"
  by code_simp

lemma decimal_digit:
  assumes "d < 10"
  shows "digit_value (''0123456789'' ! d) = d \<and> is_digit (''0123456789'' ! d)"
proof -
  from assms have "d = 0 \<or> d = 1 \<or> d = 2 \<or> d = 3 \<or> d = 4 \<or> d = 5 \<or> d = 6 \<or> d = 7
      \<or> d = 8 \<or> d = 9"
    by arith
  then show ?thesis
    by (elim disjE) (simp_all add: digit_value_def is_digit_def)
qed

lemma nat_of_str_snoc: "nat_of_str (s @ [c]) = 10 * nat_of_str s + digit_value c"
  by (simp add: nat_of_str_def)

text \<open>\<open>str_of_nat\<close> writes a number in decimal digits that read back as the number.\<close>

lemma str_of_nat_decimal:
  "nat_of_str (str_of_nat n) = n \<and> list_all is_digit (str_of_nat n) \<and> str_of_nat n \<noteq> []"
proof (induction n rule: str_of_nat.induct)
  case (1 n)
  show ?case
  proof (cases "n < 10")
    case True
    with decimal_digit [of n] show ?thesis
      by (simp add: nat_of_str_def)
  next
    case False
    have m: "n mod 10 < 10" by simp
    from False have e: "str_of_nat n = str_of_nat (n div 10) @ [''0123456789'' ! (n mod 10)]"
      by (subst str_of_nat.simps) simp
    from "1.IH" [OF False] decimal_digit [OF m] show ?thesis
      by (simp add: e nat_of_str_snoc del: str_of_nat.simps)
  qed
qed

text \<open>
  When the lines \<open>pre\<close> before a continuation line are all discarded or
  continuation lines, the loop reaches the line with no speaker established. It
  then prints \<open>Missed speaker for line\<close>, the position of the line in decimal
  digits, a colon and a space, and the text of the line; it leaves every file as
  it was and the current speaker unset, and goes on with the remaining lines.
\<close>

lemma missed_speaker_warning:
  assumes "list_all no_new_speaker pre"
    and "parse_transcription_line line = Inr (None, Some text)"
  shows "fst (process_lines bp (pre @ [line]) (start_loop s)) = None \<and>
         last (stdout (snd (process_lines bp (pre @ [line]) (start_loop s)))) =
           ''Missed speaker for line '' @ str_of_nat (length pre + 1) @ '': '' @ text \<and>
         nat_of_str (str_of_nat (length pre + 1)) = length pre + 1 \<and>
         list_all is_digit (str_of_nat (length pre + 1)) \<and>
         files (snd (process_lines bp (pre @ [line]) (start_loop s))) = files s \<and>
         output_file (snd (process_lines bp (pre @ [line]) (start_loop s))) = None \<and>
         process_lines bp (pre @ line # rest) (start_loop s) =
           process_lines bp rest (snd (process_lines bp (pre @ [line]) (start_loop s)))"
proof -
  let ?s0 = "start_loop s"
  have o0: "output_file ?s0 = None" by (simp add: start_loop_def)
  note p = process_lines_no_speaker [OF assms(1) o0, of bp]
  obtain e1 s1 where r: "process_lines bp pre ?s0 = (e1, s1)" by (cases "process_lines bp pre ?s0")
  with p have e1: "e1 = None" and o1: "output_file s1 = None" and f1: "files s1 = files ?s0"
    and ln: "line_number s1 = length pre"
    by (simp_all add: start_loop_def)
  from assms(2) have n: "no_new_speaker line" by (simp add: no_new_speaker_def)
  note q = process_line_no_speaker [OF n o1, of bp]
  obtain e2 s2 where r2: "process_line bp line s1 = (e2, s2)" by (cases "process_line bp line s1")
  with q have e2: "e2 = None" and o2: "output_file s2 = None" and f2: "files s2 = files s1"
    by simp_all
  have a: "process_lines bp (pre @ [line]) ?s0 = (None, s2)"
    using r r2 e1 e2 by (simp add: process_lines_append)
  have b: "process_lines bp (pre @ line # rest) ?s0 = process_lines bp rest s2"
    using r r2 e1 e2 by (simp add: process_lines_append)
  have w: "stdout s2 = stdout s1 @ [missed_speaker (length pre + 1) text]"
    using process_line_missed [OF assms(2) o1, of bp] r2 ln by simp
  have f: "files s2 = files s" using f1 f2 by (simp add: start_loop_def)
  have m: "missed_speaker (length pre + 1) text =
      ''Missed speaker for line '' @ str_of_nat (length pre + 1) @ '': '' @ text"
    by (simp only: missed_speaker_def)
  have l: "last (stdout s2) =
      ''Missed speaker for line '' @ str_of_nat (length pre + 1) @ '': '' @ text"
    using w m by (simp del: str_of_nat.simps)
  from a have a1: "fst (process_lines bp (pre @ [line]) ?s0) = None"
    and a2: "snd (process_lines bp (pre @ [line]) ?s0) = s2"
    by simp_all
  show ?thesis
    unfolding a1 a2
    using b f o2 l str_of_nat_decimal [of "length pre + 1"] by blast
qed

lemma missed_speaker_warning_hello:
  "last (stdout (snd (process_lines ''buckets/speech'' [''Hello there.'']
          (start_loop (new_parser ''buckets'' ''''))))) =
     ''Missed speaker for line 1: Hello there.'' \<and>
   files (snd (process_lines ''buckets/speech'' [''Hello there.'']
          (start_loop (new_parser ''buckets'' '''')))) = Map.empty"
proof -
  have h1: "list_all no_new_speaker []" by simp
  have h2: "parse_transcription_line ''Hello there.'' = Inr (None, Some ''Hello there.'')"
    by code_simp
  have m: "str_of_nat (length ([] :: string list) + 1) = ''1''"
    by code_simp
  have f: "files (new_parser ''buckets'' '''') = Map.empty"
    by (simp add: new_parser_def)
  from missed_speaker_warning [OF h1 h2, of "''buckets/speech''" "new_parser ''buckets'' ''''" "[]"]
  have "last (stdout (snd (process_lines ''buckets/speech'' ([] @ [''Hello there.''])
          (start_loop (new_parser ''buckets'' ''''))))) =
        ''Missed speaker for line '' @ str_of_nat (length ([] :: string list) + 1) @ '': ''
          @ ''Hello there.''"
    and "files (snd (process_lines ''buckets/speech'' ([] @ [''Hello there.''])
          (start_loop (new_parser ''buckets'' '''')))) = files (new_parser ''buckets'' '''')"
    by blast+
  then show ?thesis
    unfolding m f by simp
qed

text \<open>
  C7. The claim is that in every transcript a continuation line that comes
  before any speaker has been established produces a warning with its line
  number and content. The loop over the lines has the classifier's exception
  for an earlier line end the method: in the transcript \<open>A : b\<close>,
  \<open>Hello there.\<close> the second line is a continuation line with no speaker
  established, the first line raises \<open>IndexError\<close>, and the only message
  printed is that of the file being processed; no warning is produced for
  line 2.
\<close>

theorem continuation_unwarned_after_error:
  "parse_transcription_line ''Hello there.'' = Inr (None, Some ''Hello there.'') \<and>
   fst (process_transcription ''speech.txt'' [''A : b'', ''Hello there.'']
          (new_parser ''buckets'' '''')) = Some IndexError \<and>
   output_file (snd (process_transcription ''speech.txt'' [''A : b'', ''Hello there.'']
          (new_parser ''buckets'' ''''))) = None \<and>
   stdout (snd (process_transcription ''speech.txt'' [''A : b'', ''Hello there.'']
          (new_parser ''buckets'' ''''))) = [''Processing file speech.txt'']"
  by code_simp

subsection \<open>Release of the sinks\<close>

lemma close_fold:
  "open_files (fold (\<lambda>(key, handle). close_file handle) fh s) = open_files s - snd ` set fh \<and>
   file_handles (fold (\<lambda>(key, handle). close_file handle) fh s) = file_handles s \<and>
   files (fold (\<lambda>(key, handle). close_file handle) fh s) = files s \<and>
   stdout (fold (\<lambda>(key, handle). close_file handle) fh s) = stdout s \<and>
   files_created (fold (\<lambda>(key, handle). close_file handle) fh s) = files_created s \<and>
   line_number (fold (\<lambda>(key, handle). close_file handle) fh s) = line_number s \<and>
   output_file (fold (\<lambda>(key, handle). close_file handle) fh s) = output_file s"
  by (induction fh arbitrary: s) (auto simp: close_file_def)

lemma close_all_fields:
  "open_files (close_all s) = open_files s - handles s"
  "file_handles (close_all s) = file_handles s"
  "files (close_all s) = files s"
  "stdout (close_all s) = stdout s"
  "files_created (close_all s) = files_created s"
  "line_number (close_all s) = line_number s"
  "output_file (close_all s) = output_file s"
  using close_fold [of "file_handles s" s]
  by (simp_all add: close_all_def handles_def)

lemma select_speaker_open:
  assumes "open_files s = opened \<union> handles s"
  shows "open_files (select_speaker bp sp s) = opened \<union> handles (select_speaker bp sp s)"
  using assms
  by (auto simp: select_speaker_def handles_def open_w_def Let_def split: option.splits)

lemma process_line_open:
  assumes "open_files s = opened \<union> handles s"
  shows "open_files (snd (process_line bp line s)) =
           opened \<union> handles (snd (process_line bp line s))"
proof -
  let ?s = "s\<lparr>line_number := line_number s + 1\<rparr>"
  have s: "open_files ?s = opened \<union> handles ?s"
    using assms by (simp add: handles_def)
  have w: "\<And>h t u. open_files (write_file h t u) = open_files u
              \<and> handles (write_file h t u) = handles u"
    by (simp add: write_file_def handles_def)
  have p: "\<And>m u. open_files (print_line m u) = open_files u
              \<and> handles (print_line m u) = handles u"
    by (simp add: print_line_def handles_def)
  show ?thesis
    using s select_speaker_open [OF s, of bp]
    by (auto simp: process_line_def write_words_def Let_def w p split: sum.splits option.splits prod.splits)
qed

lemma process_lines_open:
  assumes "open_files s = opened \<union> handles s"
  shows "open_files (snd (process_lines bp ls s)) =
           opened \<union> handles (snd (process_lines bp ls s))"
  using assms
proof (induction ls arbitrary: s)
  case Nil
  then show ?case by simp
next
  case (Cons l ls)
  obtain e s' where r: "process_line bp l s = (e, s')" by (cases "process_line bp l s")
  from process_line_open [OF Cons.prems, of bp l] r
  have o: "open_files s' = opened \<union> handles s'" by simp
  show ?case
  proof (cases e)
    case None
    with r Cons.IH [OF o] show ?thesis by simp
  next
    case (Some x)
    with r o show ?thesis by simp
  qed
qed

text \<open>
  C8. The claim is that the sinks opened for a transcript are released when its
  processing finishes, also when an error occurs in the middle. The handles are
  closed by a loop that follows the loop over the lines; an exception raised for
  the second line below leaves the method with the sink of SMITH open.
\<close>

theorem sink_left_open_on_error:
  "fst (process_transcription ''speech.txt'' [''SMITH: Hello.'', ''JONES : Hi.'']
          (new_parser ''buckets'' '''')) = Some IndexError \<and>
   ''buckets/speech_SMITH.txt'' \<in>
     open_files (snd (process_transcription ''speech.txt'' [''SMITH: Hello.'', ''JONES : Hi.'']
          (new_parser ''buckets'' '''')))"
  by code_simp

text \<open>
  C8, as the source has it: when processing a transcript finishes without an
  exception, no sink opened for it remains open, and no handle is open that was
  not open before.
\<close>

theorem sinks_released:
  assumes "fst (process_transcription fp ls s) = None"
  shows "handles (snd (process_transcription fp ls s)) \<inter>
           open_files (snd (process_transcription fp ls s)) = {} \<and>
         open_files (snd (process_transcription fp ls s)) \<subseteq> open_files s"
proof -
  obtain s' where s'_def: "s' = snd (process_transcription fp ls s)" by simp
  with assms have run: "process_transcription fp ls s = (None, s')"
    by (metis prod.collapse)
  let ?s1 = "print_line (''Processing file '' @ path_tail fp) s"
  from run obtain dot where d: "str_rindex CHR ''.'' (path_tail fp) = Inr dot"
    by (auto simp: process_transcription_def Let_def split: sum.splits)
  let ?bp = "path_join (output_dir ?s1) (output_prefix ?s1 @ take dot (path_tail fp))"
  obtain e s3 where r: "process_lines ?bp ls (start_loop ?s1) = (e, s3)"
    by (cases "process_lines ?bp ls (start_loop ?s1)")
  from run d r have e: "e = None"
    and s': "s' = (close_all s3)\<lparr>files_processed := files_processed (close_all s3) + 1\<rparr>"
    by (auto simp: process_transcription_def Let_def split: option.splits)
  have "open_files (start_loop ?s1) = open_files s \<union> handles (start_loop ?s1)"
    by (simp add: start_loop_def print_line_def handles_def)
  from process_lines_open [OF this, of ?bp ls] r
  have o: "open_files s3 = open_files s \<union> handles s3" by simp
  have "open_files s' = open_files s3 - handles s3" "handles s' = handles s3"
    using s' by (simp_all add: close_all_fields handles_def)
  with o s'_def show ?thesis by auto
qed

theorem sinks_released_witness:
  "fst (process_transcription ''speech.txt''
          [''SMITH: Hello.'', ''Nice to see you.'', ''JONES: Hi Smith.'']
          (new_parser ''buckets'' '''')) = None \<and>
   handles (snd (process_transcription ''speech.txt''
          [''SMITH: Hello.'', ''Nice to see you.'', ''JONES: Hi Smith.'']
          (new_parser ''buckets'' ''''))) \<inter>
     open_files (snd (process_transcription ''speech.txt''
          [''SMITH: Hello.'', ''Nice to see you.'', ''JONES: Hi Smith.'']
          (new_parser ''buckets'' ''''))) = {} \<and>
   open_files (snd (process_transcription ''speech.txt''
          [''SMITH: Hello.'', ''Nice to see you.'', ''JONES: Hi Smith.'']
          (new_parser ''buckets'' ''''))) = {}"
proof -
  have h: "fst (process_transcription ''speech.txt''
          [''SMITH: Hello.'', ''Nice to see you.'', ''JONES: Hi Smith.'']
          (new_parser ''buckets'' '''')) = None"
    by code_simp
  have o: "open_files (new_parser ''buckets'' '''') = {}"
    by (simp add: new_parser_def)
  from sinks_released [OF h] h o show ?thesis by simp
qed

subsection \<open>Two runs over the same transcript\<close>














subsection \<open>A speaker line always writes\<close>

text \<open>
  C10. When a line is classified as starting a speaker, the spoken text attached
  to it is not empty: the trimmed line cannot end with the space of the
  delimiter. Processing such a line raises nothing, makes that speaker's sink
  the current output and appends the text, with its line ending, to what the
  sink held.
\<close>

theorem new_speaker_writes:
  assumes "parse_transcription_line line = Inr (Some speaker, Some text)"
  shows "text \<noteq> [] \<and>
         fst (process_line bp line s) = None \<and>
         output_file (snd (process_line bp line s)) = Some (sink bp s speaker) \<and>
         files (snd (process_line bp line s)) (sink bp s speaker) =
           Some (carried_over s speaker @ text @ crlf)"
proof -
  from parse_new_speaker_text [OF assms] have t: "text \<noteq> []" and n: "is_speaker_name speaker"
    by simp_all
  from n have sp: "speaker \<noteq> []" by (rule is_speaker_name_nonempty)
  let ?s = "s\<lparr>line_number := line_number s + 1\<rparr>"
  have k: "sink bp ?s speaker = sink bp s speaker" "carried_over ?s speaker = carried_over s speaker"
    by (simp_all add: sink_def carried_over_def contents_def split: option.splits)
  have p: "process_line bp line s =
        (None, write_file (sink bp s speaker) (text @ crlf) (select_speaker bp speaker ?s))"
    using assms t sp select_speaker_output [of bp speaker ?s] k
    by (simp add: process_line_def write_words_def Let_def)
  show ?thesis
    using t k select_speaker_contents [of bp speaker ?s]
    by (simp add: p write_file_files write_file_output select_speaker_output)
qed

theorem new_speaker_writes_witness:
  "parse_transcription_line ''SMITH: Hello.'' = Inr (Some ''SMITH'', Some ''Hello.'') \<and>
   ''Hello.'' \<noteq> [] \<and>
   fst (process_line ''buckets/speech'' ''SMITH: Hello.''
          (start_loop (new_parser ''buckets'' ''''))) = None \<and>
   output_file (snd (process_line ''buckets/speech'' ''SMITH: Hello.''
          (start_loop (new_parser ''buckets'' '''')))) = Some ''buckets/speech_SMITH.txt'' \<and>
   files (snd (process_line ''buckets/speech'' ''SMITH: Hello.''
          (start_loop (new_parser ''buckets'' '''')))) ''buckets/speech_SMITH.txt'' =
     Some (''Hello.'' @ crlf)"
proof -
  have h: "parse_transcription_line ''SMITH: Hello.'' = Inr (Some ''SMITH'', Some ''Hello.'')"
    by code_simp
  have k: "sink ''buckets/speech'' (start_loop (new_parser ''buckets'' '''')) ''SMITH'' =
      ''buckets/speech_SMITH.txt''"
    by code_simp
  have c: "carried_over (start_loop (new_parser ''buckets'' '''')) ''SMITH'' = []"
    by code_simp
  from new_speaker_writes [OF h, of "''buckets/speech''" "start_loop (new_parser ''buckets'' '''')"]
    h k c
  show ?thesis by simp
qed

end
